theory Spec2Isabelle
  imports Main "HOL-Library.AList"
begin

section \<open>The data model of wrangler.py\<close>

text \<open>
  Terms are Python strings. A Python value that is either a string or \<open>None\<close> is a
  \<open>string option\<close>. A \<open>dict\<close> is an association list in insertion order:
  \<open>AList.update k v\<close> replaces the value of an existing key in place and appends a new
  key at the end, which is what \<open>d[k] = v\<close> does; \<open>map_of\<close> is the lookup.
\<close>

type_synonym pyval = "string option"

type_synonym pydict = "(string \<times> pyval) list"

type_synonym pycounter = "(string \<times> int) list"

datatype error = AssertionError

text \<open>\<open>d.get(k)\<close>: the stored value, or \<open>None\<close> when the key is missing.\<close>

definition dict_get :: "pydict \<Rightarrow> string \<Rightarrow> pyval" where
  "dict_get d k = (case map_of d k of None \<Rightarrow> None | Some v \<Rightarrow> v)"

text \<open>\<open>Counter.__getitem__\<close>: a missing key counts 0.\<close>

definition counter_get :: "pycounter \<Rightarrow> string \<Rightarrow> int" where
  "counter_get c k = (case map_of c k of None \<Rightarrow> 0 | Some n \<Rightarrow> n)"

text \<open>
  \<open>Counter(terms)\<close>: one pass over the list, \<open>c[elem] = c.get(elem, 0) + 1\<close>. The keys
  stand in the order of their first occurrence, and \<open>items()\<close> iterates in that order.
\<close>

definition counter :: "string list \<Rightarrow> pycounter" where
  "counter terms = fold (\<lambda>elem c. AList.update elem (counter_get c elem + 1) c) terms []"

text \<open>
  \<open>set(terms)\<close>: Python fixes no iteration order for a set. The order is the parameter
  \<open>enum\<close>, a function of the list the set is built from; \<open>set_iteration_order\<close> says
  that it lists every distinct term exactly once.
\<close>

definition unique_terms :: "(string list \<Rightarrow> string list) \<Rightarrow> string list \<Rightarrow> string list" where
  "unique_terms enum terms = enum terms"

definition set_iteration_order :: "(string list \<Rightarrow> string list) \<Rightarrow> bool" where
  "set_iteration_order enum \<longleftrightarrow> (\<forall>ts. distinct (enum ts) \<and> set (enum ts) = set ts)"

section \<open>BaseWrangler\<close>

text \<open>
  \<open>wrangled_terms\<close> appends, for every input term in order, its substitution when
  \<open>substitutions.get(term)\<close> is not \<open>None\<close>, and the term itself otherwise.
\<close>

definition wrangled_terms :: "pydict \<Rightarrow> string list \<Rightarrow> string list" where
  "wrangled_terms substitutions terms =
     fold (\<lambda>term wrangled.
             (case dict_get substitutions term of
                Some updated_term \<Rightarrow> wrangled @ [updated_term]
              | None \<Rightarrow> wrangled @ [term]))
          terms []"

text \<open>\<open>wrangle\<close>: the \<open>assert term in self._terms_\<close> is the error branch.\<close>

definition wrangle :: "pydict \<Rightarrow> string list \<Rightarrow> string \<Rightarrow> error + string" where
  "wrangle substitutions terms term =
     (if term \<in> set terms
      then Inr (case dict_get substitutions term of None \<Rightarrow> term | Some sub \<Rightarrow> sub)
      else Inl AssertionError)"

section \<open>CapsWrangler\<close>

text \<open>
  \<open>str.lower\<close> is the parameter \<open>lower\<close>. The loop of
  \<open>_get_preferred_capitalization_\<close> carries \<open>(best_term, best_count)\<close>, starting from
  \<open>(None, 0)\<close>, over the items of the counter.
\<close>

definition get_preferred_capitalization ::
    "(string \<Rightarrow> string) \<Rightarrow> string list \<Rightarrow> string \<Rightarrow> pyval" where
  "get_preferred_capitalization lower terms term =
     (let lower_term = lower term in
      fst (fold (\<lambda>(alt_term, count) (best_term, best_count).
                   if lower_term = lower alt_term \<and> count > best_count
                   then (Some alt_term, count)
                   else (best_term, best_count))
                (counter terms) (None, 0)))"

definition caps_substitutions ::
    "(string \<Rightarrow> string) \<Rightarrow> (string list \<Rightarrow> string list) \<Rightarrow> string list \<Rightarrow> pydict" where
  "caps_substitutions lower enum terms =
     fold (\<lambda>term substitutions.
             (let preferred_cap = get_preferred_capitalization lower terms term in
              if preferred_cap \<noteq> Some term
              then AList.update term preferred_cap substitutions
              else substitutions))
          (unique_terms enum terms) []"

section \<open>TextWrangler\<close>

text \<open>
  Modelled from the spec: \<open>fuzzywuzzy.process.extractBests\<close> is an imported library
  function, not part of the repository's source. The similarity score of a choice against
  the query is the parameter \<open>scorer\<close>; every choice is scored in the iteration order
  of the choices, the candidates are ranked by score, descending (a stable ranking: of two
  candidates with the same score the one iterated first stays first), and the first
  \<open>limit\<close> of them are returned as (term, score) pairs.
  Scores are on the 0 to 100 scale, so the library's cutoff at score 0 drops no candidate.
\<close>

definition extractBests ::
    "(string \<Rightarrow> string \<Rightarrow> int) \<Rightarrow> string \<Rightarrow> string list \<Rightarrow> nat \<Rightarrow> (string \<times> int) list" where
  "extractBests scorer query choices limit =
     take limit (sort_key (\<lambda>i. - snd i) (map (\<lambda>choice. (choice, scorer query choice)) choices))"

definition text_substitutions ::
    "(string \<Rightarrow> string \<Rightarrow> int) \<Rightarrow> (string list \<Rightarrow> string list) \<Rightarrow> string list \<Rightarrow> int \<Rightarrow> pydict" where
  "text_substitutions scorer enum terms threshold =
     fold (\<lambda>term substitutions.
             (let closest_terms = extractBests scorer term (unique_terms enum terms) 2 in
              if length closest_terms > 1
              then (let closest_term = last closest_terms in
                    if snd closest_term > threshold
                    then (if counter_get (counter terms) (fst closest_term)
                               \<ge> counter_get (counter terms) term
                          then AList.update term (Some (fst closest_term)) substitutions
                          else substitutions)
                    else substitutions)
              else substitutions))
          (unique_terms enum terms) []"

section \<open>Wrangler\<close>

text \<open>
  The first loop runs over the items of the capitalization map while it overwrites the
  value of the item it is visiting; since every key is visited once and only its own
  value is written, the items are those of the map before the loop. The lookup
  \<open>text_wrangler.substitutions.get(caps_sub)\<close> of a \<open>caps_sub\<close> that is \<open>None\<close> finds
  nothing. The text wrangler is built with the default threshold 94.
\<close>

definition wrangler_substitutions ::
    "(string \<Rightarrow> string) \<Rightarrow> (string \<Rightarrow> string \<Rightarrow> int) \<Rightarrow> (string list \<Rightarrow> string list)
      \<Rightarrow> string list \<Rightarrow> pydict" where
  "wrangler_substitutions lower scorer enum terms =
     (let caps_subs = caps_substitutions lower enum terms;
          text_subs = text_substitutions scorer enum (wrangled_terms caps_subs terms) 94;
          substitutions =
            fold (\<lambda>(term, caps_sub) substitutions.
                    (case (case caps_sub of None \<Rightarrow> None | Some c \<Rightarrow> dict_get text_subs c) of
                       Some text_sub \<Rightarrow> AList.update term (Some text_sub) substitutions
                     | None \<Rightarrow> substitutions))
                 caps_subs caps_subs
      in fold (\<lambda>(term, text_sub) substitutions. AList.update term text_sub substitutions)
              text_subs substitutions)"

section \<open>Concrete parameters for running the model\<close>

text \<open>Lower-casing of the ASCII letters, as \<open>str.lower\<close> does on ASCII text.\<close>

definition lower_char :: "char \<Rightarrow> char" where
  "lower_char c =
     (case map_of (zip ''ABCDEFGHIJKLMNOPQRSTUVWXYZ'' ''abcdefghijklmnopqrstuvwxyz'') c of
        Some d \<Rightarrow> d
      | None \<Rightarrow> c)"

definition ascii_lower :: "string \<Rightarrow> string" where
  "ascii_lower s = map lower_char s"

text \<open>
  Two iteration orders of a set: the distinct terms in the order of their last
  occurrence, and the reverse of it.
\<close>

definition forward_order :: "string list \<Rightarrow> string list" where
  "forward_order ts = remdups ts"

definition backward_order :: "string list \<Rightarrow> string list" where
  "backward_order ts = rev (remdups ts)"

text \<open>
  A sample similarity scorer on the 0 to 100 scale: both strings are lower-cased (the
  library's default processor does so too), identical strings score 100, and otherwise
  the score is twice the length of a longest common subsequence over the sum of the
  lengths, in percent. It is symmetric and scores 100 for identical strings.
\<close>

fun lcs :: "string \<Rightarrow> string \<Rightarrow> nat" where
  "lcs [] ys = 0"
| "lcs (x # xs) [] = 0"
| "lcs (x # xs) (y # ys) =
     (if x = y then Suc (lcs xs ys) else max (lcs xs (y # ys)) (lcs (x # xs) ys))"

definition sample_scorer :: "string \<Rightarrow> string \<Rightarrow> int" where
  "sample_scorer query choice =
     (let q = ascii_lower query; c = ascii_lower choice in
      if q = c then 100 else int ((200 * lcs q c) div (length q + length c)))"

section \<open>The specification's choice of a capitalization\<close>

text \<open>
  Following the specification's words for the Capitalization Normalizer: \<open>u\<close> is the
  chosen member of the case-insensitive group of \<open>t\<close> when it belongs to the input, is
  equal to \<open>t\<close> ignoring case, no member of the group occurs more often, and every
  member of the group first encountered before \<open>u\<close> occurs strictly less often (a
  tie at the maximum goes to the term encountered first).
\<close>

definition most_frequent_casing ::
    "(string \<Rightarrow> string) \<Rightarrow> string list \<Rightarrow> string \<Rightarrow> string \<Rightarrow> bool" where
  "most_frequent_casing lower terms t u \<longleftrightarrow>
     u \<in> set terms \<and> lower u = lower t \<and>
     (\<forall>v\<in>set terms. lower v = lower t \<longrightarrow> count_list terms v \<le> count_list terms u) \<and>
     (\<forall>v\<in>set (takeWhile (\<lambda>x. x \<noteq> u) terms).
        lower v = lower t \<longrightarrow> count_list terms v < count_list terms u)"

section \<open>The counter\<close>

lemma counter_get_update:
  "counter_get (AList.update k v c) t = (if t = k then v else counter_get c t)"
  by (simp add: counter_get_def update_conv')

lemma counter_fold_get:
  "counter_get (fold (\<lambda>elem c. AList.update elem (counter_get c elem + 1) c) ts c) t
     = counter_get c t + int (count_list ts t)"
  by (induction ts arbitrary: c) (simp_all add: counter_get_update)

lemma counter_fold_keys:
  "fst ` set (fold (\<lambda>elem c. AList.update elem (counter_get c elem + 1) c) ts c)
     = fst ` set c \<union> set ts"
  by (induction ts arbitrary: c) (auto simp: dom_update)

lemma counter_fold_distinct:
  "distinct (map fst c) \<Longrightarrow>
   distinct (map fst (fold (\<lambda>elem c. AList.update elem (counter_get c elem + 1) c) ts c))"
  by (induction ts arbitrary: c) (simp_all add: distinct_update)

lemma counter_fold_prefix:
  "\<exists>ks. map fst (fold (\<lambda>elem c. AList.update elem (counter_get c elem + 1) c) ts c)
          = map fst c @ ks"
proof (induction ts arbitrary: c)
  case Nil
  then show ?case by simp
next
  case (Cons a ts)
  obtain ks where "map fst (fold (\<lambda>elem c. AList.update elem (counter_get c elem + 1) c) ts
                     (AList.update a (counter_get c a + 1) c))
                   = map fst (AList.update a (counter_get c a + 1) c) @ ks"
    using Cons.IH by blast
  then show ?case by (auto simp: update_keys)
qed

lemma counter_get_count: "counter_get (counter terms) t = int (count_list terms t)"
  by (simp add: counter_def counter_fold_get) (simp add: counter_get_def)

lemma counter_keys: "fst ` set (counter terms) = set terms"
  by (simp add: counter_def counter_fold_keys)

lemma counter_distinct: "distinct (map fst (counter terms))"
  by (simp add: counter_def counter_fold_distinct)

lemma counter_entry:
  assumes "(k, n) \<in> set (counter terms)"
  shows "k \<in> set terms" and "n = int (count_list terms k)"
proof -
  show "k \<in> set terms" using assms counter_keys by force
  have "map_of (counter terms) k = Some n"
    using assms counter_distinct by simp
  then have "counter_get (counter terms) k = n" by (simp add: counter_get_def)
  then show "n = int (count_list terms k)" by (simp add: counter_get_count)
qed

lemma counter_has_entry:
  assumes "k \<in> set terms"
  shows "(k, int (count_list terms k)) \<in> set (counter terms)"
proof -
  obtain n where n: "(k, n) \<in> set (counter terms)"
    using assms counter_keys by force
  then show ?thesis using counter_entry(2) by blast
qed

lemma counter_before_first:
  assumes "terms = p @ u # s" and "u \<notin> set p"
  shows "\<exists>rest. map fst (counter terms) = map fst (counter p) @ u # rest"
proof -
  let ?upd = "\<lambda>elem c. AList.update elem (counter_get c elem + 1) c"
  have keys: "u \<notin> set (map fst (counter p))"
    using assms(2) counter_keys by simp
  have "counter terms = fold ?upd s (?upd u (counter p))"
    by (simp add: counter_def assms(1))
  moreover obtain ks where "map fst (fold ?upd s (?upd u (counter p)))
      = map fst (?upd u (counter p)) @ ks"
    using counter_fold_prefix by blast
  ultimately show ?thesis using keys by (simp add: update_keys)
qed

lemma counter_earlier_keys:
  assumes "counter terms = pre @ (u, n) # suf"
  shows "fst ` set pre = set (takeWhile (\<lambda>x. x \<noteq> u) terms)"
proof -
  have u: "u \<in> set terms" using assms counter_entry(1)[of u n terms] by simp
  define p where "p = takeWhile (\<lambda>x. x \<noteq> u) terms"
  have split: "terms = p @ u # tl (dropWhile (\<lambda>x. x \<noteq> u) terms)"
    using u unfolding p_def
    by (metis (mono_tags, lifting) dropWhile_eq_Nil_conv hd_dropWhile list.collapse takeWhile_dropWhile_id)
  have notin: "u \<notin> set p" unfolding p_def by (auto dest: set_takeWhileD)
  obtain rest where rest: "map fst (counter terms) = map fst (counter p) @ u # rest"
    using counter_before_first[OF split notin] by blast
  have d: "distinct (map fst (counter terms))" by (rule counter_distinct)
  have a: "u \<notin> set (map fst pre)" using d assms by auto
  have a': "u \<notin> set (map fst suf)" using d assms by auto
  have c: "map fst pre @ u # map fst suf = map fst (counter p) @ u # rest"
    using rest assms by simp
  have "map fst pre = map fst (counter p)"
    using append_Cons_eq_iff[OF a a'] c by blast
  then have "set (map fst pre) = set (map fst (counter p))" by simp
  then show ?thesis using counter_keys[of p] by (simp add: p_def)
qed

lemma preferred_fold:
  assumes "fold (\<lambda>(alt_term, count) (best_term, best_count).
                   if key = lower alt_term \<and> count > best_count
                   then (Some alt_term, count)
                   else (best_term, best_count)) cs (b, n) = (b', n')"
  shows "(n::int) \<le> n' \<and>
         (\<forall>(a, c)\<in>set cs. key = lower a \<longrightarrow> c \<le> n') \<and>
         ((b', n') = (b, n) \<or>
          (\<exists>pre suf u. cs = pre @ (u, n') # suf \<and> b' = Some u \<and> key = lower u \<and> n < n' \<and>
             (\<forall>(a, c)\<in>set pre. key = lower a \<longrightarrow> c < n')))"
  using assms
proof (induction cs arbitrary: b n)
  case Nil
  then show ?case by simp
next
  case (Cons p cs)
  obtain a c where p: "p = (a, c)" by (cases p)
  show ?case
  proof (cases "key = lower a \<and> c > n")
    case True
    then have run: "fold (\<lambda>(alt_term, count) (best_term, best_count).
                   if key = lower alt_term \<and> count > best_count
                   then (Some alt_term, count)
                   else (best_term, best_count)) cs (Some a, c) = (b', n')"
      using Cons.prems p by simp
    note ih = Cons.IH[OF run]
    from ih have le: "c \<le> n'" and all: "\<forall>(a, c)\<in>set cs. key = lower a \<longrightarrow> c \<le> n'"
      by blast+
    from ih consider (same) "(b', n') = (Some a, c)"
      | (later) pre suf u where "cs = pre @ (u, n') # suf" "b' = Some u" "key = lower u"
          "c < n'" "\<forall>(a, c)\<in>set pre. key = lower a \<longrightarrow> c < n'"
      by blast
    then have "\<exists>pre suf u. p # cs = pre @ (u, n') # suf \<and> b' = Some u \<and> key = lower u \<and> n < n' \<and>
             (\<forall>(a, c)\<in>set pre. key = lower a \<longrightarrow> c < n')"
    proof cases
      case same
      then have "p # cs = [] @ (a, n') # cs \<and> b' = Some a \<and> key = lower a \<and> n < n'"
        using True p by simp
      then show ?thesis by (metis empty_iff list.set(1))
    next
      case later
      then have "p # cs = (p # pre) @ (u, n') # suf \<and> b' = Some u \<and> key = lower u \<and> n < n' \<and>
             (\<forall>(a, c)\<in>set (p # pre). key = lower a \<longrightarrow> c < n')"
        using True p by auto
      then show ?thesis by blast
    qed
    then show ?thesis using le all True p by auto
  next
    case False
    then have run: "fold (\<lambda>(alt_term, count) (best_term, best_count).
                   if key = lower alt_term \<and> count > best_count
                   then (Some alt_term, count)
                   else (best_term, best_count)) cs (b, n) = (b', n')"
      using Cons.prems p by auto
    note ih = Cons.IH[OF run]
    from ih have le: "n \<le> n'" and all: "\<forall>(a, c)\<in>set cs. key = lower a \<longrightarrow> c \<le> n'"
      by blast+
    have head: "key = lower a \<longrightarrow> c \<le> n'" using False le by auto
    from ih consider (same) "(b', n') = (b, n)"
      | (later) pre suf u where "cs = pre @ (u, n') # suf" "b' = Some u" "key = lower u"
          "n < n'" "\<forall>(a, c)\<in>set pre. key = lower a \<longrightarrow> c < n'"
      by blast
    then have "(b', n') = (b, n) \<or> (\<exists>pre suf u. p # cs = pre @ (u, n') # suf \<and> b' = Some u \<and> key = lower u \<and> n < n' \<and>
             (\<forall>(a, c)\<in>set pre. key = lower a \<longrightarrow> c < n'))"
    proof cases
      case same
      then show ?thesis by simp
    next
      case later
      have "key = lower a \<longrightarrow> c < n'" using False later(4) by auto
      then have "p # cs = (p # pre) @ (u, n') # suf \<and> b' = Some u \<and> key = lower u \<and> n < n' \<and>
             (\<forall>(a, c)\<in>set (p # pre). key = lower a \<longrightarrow> c < n')"
        using later p by auto
      then show ?thesis by blast
    qed
    then show ?thesis using le all head p by auto
  qed
qed

lemma preferred_same_group:
  "lower t = lower t' \<Longrightarrow>
   get_preferred_capitalization lower terms t = get_preferred_capitalization lower terms t'"
  by (simp add: get_preferred_capitalization_def)

lemma preferred_is_most_frequent:
  assumes "t \<in> set terms"
  shows "\<exists>u. get_preferred_capitalization lower terms t = Some u \<and>
             most_frequent_casing lower terms t u"
proof -
  let ?step = "\<lambda>(alt_term, count) (best_term, best_count).
                   if lower t = lower alt_term \<and> count > best_count
                   then (Some alt_term, count)
                   else (best_term, best_count)"
  obtain b' n' where run: "fold ?step (counter terms) (None, 0::int) = (b', n')"
    by (cases "fold ?step (counter terms) (None, 0::int)")
  have gpc: "get_preferred_capitalization lower terms t = b'"
    by (simp add: get_preferred_capitalization_def run)
  note pf = preferred_fold[OF run]
  have all: "\<forall>(a, c)\<in>set (counter terms). lower t = lower a \<longrightarrow> c \<le> n'"
    using pf by blast
  have "(t, int (count_list terms t)) \<in> set (counter terms)"
    using assms by (rule counter_has_entry)
  then have tn: "int (count_list terms t) \<le> n'" using all by auto
  have "count_list terms t \<noteq> 0" using assms by (simp add: count_list_0_iff)
  then have "count_list terms t > 0" by simp
  then have "n' > 0" using tn by linarith
  then have "(b', n') \<noteq> (None, 0)" by simp
  then obtain pre suf u where dec: "counter terms = pre @ (u, n') # suf" and b': "b' = Some u"
      and key: "lower t = lower u"
      and before: "\<forall>(a, c)\<in>set pre. lower t = lower a \<longrightarrow> c < n'"
    using pf by blast
  have uin: "(u, n') \<in> set (counter terms)" using dec by simp
  then have u: "u \<in> set terms" and n': "n' = int (count_list terms u)"
    using counter_entry by blast+
  have max: "\<forall>v\<in>set terms. lower v = lower t \<longrightarrow> count_list terms v \<le> count_list terms u"
  proof (intro ballI impI)
    fix v assume "v \<in> set terms" "lower v = lower t"
    then have "int (count_list terms v) \<le> n'"
      using all counter_has_entry[of v terms] by auto
    then show "count_list terms v \<le> count_list terms u" using n' by simp
  qed
  have first: "\<forall>v\<in>set (takeWhile (\<lambda>x. x \<noteq> u) terms).
        lower v = lower t \<longrightarrow> count_list terms v < count_list terms u"
  proof (intro ballI impI)
    fix v assume v: "v \<in> set (takeWhile (\<lambda>x. x \<noteq> u) terms)" and l: "lower v = lower t"
    then have "v \<in> fst ` set pre" using counter_earlier_keys[OF dec] by simp
    then obtain c where c: "(v, c) \<in> set pre" by force
    then have "c < n'" using before l by auto
    moreover have "(v, c) \<in> set (counter terms)" using c dec by simp
    then have "c = int (count_list terms v)" using counter_entry(2) by blast
    ultimately show "count_list terms v < count_list terms u" using n' by simp
  qed
  show ?thesis
    using gpc b' u key max first by (simp add: most_frequent_casing_def)
qed

lemma earlier_or_later:
  assumes "u \<in> set terms" and "u' \<in> set terms" and "u \<noteq> u'"
  shows "u' \<in> set (takeWhile (\<lambda>x. x \<noteq> u) terms) \<or> u \<in> set (takeWhile (\<lambda>x. x \<noteq> u') terms)"
  using assms by (induction terms) auto

lemma most_frequent_casing_unique:
  assumes "most_frequent_casing lower terms t u" and "most_frequent_casing lower terms t u'"
  shows "u = u'"
proof (rule ccontr)
  assume ne: "u \<noteq> u'"
  have u: "u \<in> set terms" "lower u = lower t" and u': "u' \<in> set terms" "lower u' = lower t"
    using assms by (simp_all add: most_frequent_casing_def)
  have le1: "count_list terms u' \<le> count_list terms u"
    using assms(1) u' by (simp add: most_frequent_casing_def)
  have le2: "count_list terms u \<le> count_list terms u'"
    using assms(2) u by (simp add: most_frequent_casing_def)
  from earlier_or_later[OF u(1) u'(1) ne] show False
  proof
    assume "u' \<in> set (takeWhile (\<lambda>x. x \<noteq> u) terms)"
    then have "count_list terms u' < count_list terms u"
      using assms(1) u' by (simp add: most_frequent_casing_def)
    then show False using le2 by simp
  next
    assume "u \<in> set (takeWhile (\<lambda>x. x \<noteq> u') terms)"
    then have "count_list terms u < count_list terms u'"
      using assms(2) u by (simp add: most_frequent_casing_def)
    then show False using le1 by simp
  qed
qed

lemma map_of_fold_update_case:
  "map_of (fold (\<lambda>x acc. case g x of Some v \<Rightarrow> AList.update x v acc | None \<Rightarrow> acc) xs acc) t
     = (if t \<in> set xs \<and> g t \<noteq> None then g t else map_of acc t)"
proof (induction xs arbitrary: acc)
  case Nil
  then show ?case by simp
next
  case (Cons x xs)
  show ?case
    by (cases "g x") (auto simp: Cons.IH update_conv')
qed

lemma keys_fold_update_case:
  "distinct (map fst acc) \<Longrightarrow>
   distinct (map fst (fold (\<lambda>x acc. case g x of Some v \<Rightarrow> AList.update x v acc | None \<Rightarrow> acc)
                        xs acc))"
proof (induction xs arbitrary: acc)
  case Nil
  then show ?case by simp
next
  case (Cons x xs)
  show ?case
    by (cases "g x") (auto simp: Cons distinct_update)
qed

lemma map_of_fold_update:
  assumes "\<And>x acc. step x acc = (case g x of Some v \<Rightarrow> AList.update x v acc | None \<Rightarrow> acc)"
  shows "map_of (fold step xs acc) t = (if t \<in> set xs \<and> g t \<noteq> None then g t else map_of acc t)"
proof -
  have "step = (\<lambda>x acc. case g x of Some v \<Rightarrow> AList.update x v acc | None \<Rightarrow> acc)"
    by (intro ext) (rule assms)
  then show ?thesis by (simp only: map_of_fold_update_case)
qed

lemma keys_fold_update:
  assumes "\<And>x acc. step x acc = (case g x of Some v \<Rightarrow> AList.update x v acc | None \<Rightarrow> acc)"
    and "distinct (map fst acc)"
  shows "distinct (map fst (fold step xs acc))"
proof -
  have "step = (\<lambda>x acc. case g x of Some v \<Rightarrow> AList.update x v acc | None \<Rightarrow> acc)"
    by (intro ext) (rule assms)
  then show ?thesis using assms(2) by (simp only: keys_fold_update_case)
qed

lemma caps_lookup:
  "map_of (caps_substitutions lower enum terms) t =
     (if t \<in> set (unique_terms enum terms) \<and> get_preferred_capitalization lower terms t \<noteq> Some t
      then Some (get_preferred_capitalization lower terms t) else None)"
proof -
  let ?g = "\<lambda>x. if get_preferred_capitalization lower terms x \<noteq> Some x
                 then Some (get_preferred_capitalization lower terms x) else None"
  have "map_of (caps_substitutions lower enum terms) t =
        (if t \<in> set (unique_terms enum terms) \<and> ?g t \<noteq> None then ?g t else map_of [] t)"
    unfolding caps_substitutions_def
    by (rule map_of_fold_update) (simp add: Let_def)
  then show ?thesis by simp
qed

lemma caps_distinct: "distinct (map fst (caps_substitutions lower enum terms))"
proof -
  let ?g = "\<lambda>x. if get_preferred_capitalization lower terms x \<noteq> Some x
                 then Some (get_preferred_capitalization lower terms x) else None"
  show ?thesis
    unfolding caps_substitutions_def
    by (rule keys_fold_update[where g = ?g]) (simp_all add: Let_def)
qed

lemma text_lookup:
  "map_of (text_substitutions scorer enum terms threshold) t =
     (let closest_terms = extractBests scorer t (unique_terms enum terms) 2 in
      if t \<in> set (unique_terms enum terms) \<and> length closest_terms > 1 \<and>
         snd (last closest_terms) > threshold \<and>
         counter_get (counter terms) (fst (last closest_terms)) \<ge> counter_get (counter terms) t
      then Some (Some (fst (last closest_terms))) else None)"
proof -
  let ?g = "\<lambda>x. (let closest_terms = extractBests scorer x (unique_terms enum terms) 2 in
      if length closest_terms > 1 \<and>
         snd (last closest_terms) > threshold \<and>
         counter_get (counter terms) (fst (last closest_terms)) \<ge> counter_get (counter terms) x
      then Some (Some (fst (last closest_terms))) else None)"
  have "map_of (text_substitutions scorer enum terms threshold) t =
        (if t \<in> set (unique_terms enum terms) \<and> ?g t \<noteq> None then ?g t else map_of [] t)"
    unfolding text_substitutions_def
    by (rule map_of_fold_update) (simp add: Let_def)
  then show ?thesis by (simp add: Let_def)
qed

lemma text_distinct: "distinct (map fst (text_substitutions scorer enum terms threshold))"
proof -
  let ?g = "\<lambda>x. (let closest_terms = extractBests scorer x (unique_terms enum terms) 2 in
      if length closest_terms > 1 \<and>
         snd (last closest_terms) > threshold \<and>
         counter_get (counter terms) (fst (last closest_terms)) \<ge> counter_get (counter terms) x
      then Some (Some (fst (last closest_terms))) else None)"
  show ?thesis
    unfolding text_substitutions_def
    by (rule keys_fold_update[where g = ?g]) (simp_all add: Let_def)
qed

lemma wrangled_terms_map:
  "wrangled_terms substitutions terms =
     map (\<lambda>term. case dict_get substitutions term of Some u \<Rightarrow> u | None \<Rightarrow> term) terms"
proof -
  have "fold (\<lambda>term wrangled.
             (case dict_get substitutions term of
                Some updated_term \<Rightarrow> wrangled @ [updated_term]
              | None \<Rightarrow> wrangled @ [term])) terms acc
        = acc @ map (\<lambda>term. case dict_get substitutions term of Some u \<Rightarrow> u | None \<Rightarrow> term) terms"
    for acc
    by (induction terms arbitrary: acc) (auto split: option.splits)
  then show ?thesis by (simp add: wrangled_terms_def)
qed

lemma unique_terms_set: "set_iteration_order enum \<Longrightarrow> set (unique_terms enum terms) = set terms"
  by (simp add: set_iteration_order_def unique_terms_def)

lemma unique_terms_distinct: "set_iteration_order enum \<Longrightarrow> distinct (unique_terms enum terms)"
  by (simp add: set_iteration_order_def unique_terms_def)

lemma forward_order_ok: "set_iteration_order forward_order"
  by (simp add: set_iteration_order_def forward_order_def)

lemma backward_order_ok: "set_iteration_order backward_order"
  by (simp add: set_iteration_order_def backward_order_def)

lemma caps_entry:
  assumes "set_iteration_order enum"
  shows "map_of (caps_substitutions lower enum terms) t = Some v \<longleftrightarrow>
           t \<in> set terms \<and> (\<exists>u. v = Some u \<and> u \<noteq> t \<and> most_frequent_casing lower terms t u)"
proof
  assume "map_of (caps_substitutions lower enum terms) t = Some v"
  then have t: "t \<in> set terms" and v: "v = get_preferred_capitalization lower terms t"
      and ne: "get_preferred_capitalization lower terms t \<noteq> Some t"
    using unique_terms_set[OF assms, of terms] by (auto simp: caps_lookup split: if_splits)
  from preferred_is_most_frequent[OF t] obtain u where
    "get_preferred_capitalization lower terms t = Some u" "most_frequent_casing lower terms t u"
    by blast
  then show "t \<in> set terms \<and> (\<exists>u. v = Some u \<and> u \<noteq> t \<and> most_frequent_casing lower terms t u)"
    using t v ne by auto
next
  assume r: "t \<in> set terms \<and> (\<exists>u. v = Some u \<and> u \<noteq> t \<and> most_frequent_casing lower terms t u)"
  then obtain u where t: "t \<in> set terms" and v: "v = Some u" and ne: "u \<noteq> t"
    and mf: "most_frequent_casing lower terms t u" by blast
  from preferred_is_most_frequent[OF t] obtain u' where
    u': "get_preferred_capitalization lower terms t = Some u'" "most_frequent_casing lower terms t u'"
    by blast
  then have "u' = u" using mf most_frequent_casing_unique by blast
  then show "map_of (caps_substitutions lower enum terms) t = Some v"
    using u' t v ne unique_terms_set[OF assms, of terms] by (simp add: caps_lookup)
qed

lemma caps_no_entry:
  assumes "set_iteration_order enum" and "t \<in> set terms"
  shows "map_of (caps_substitutions lower enum terms) t = None \<longleftrightarrow>
           most_frequent_casing lower terms t t"
proof -
  from preferred_is_most_frequent[OF assms(2)] obtain u where
    u: "get_preferred_capitalization lower terms t = Some u" "most_frequent_casing lower terms t u"
    by blast
  have "map_of (caps_substitutions lower enum terms) t = None \<longleftrightarrow> u = t"
    using u assms(2) unique_terms_set[OF assms(1), of terms] by (simp add: caps_lookup)
  also have "\<dots> \<longleftrightarrow> most_frequent_casing lower terms t t"
    using u(2) most_frequent_casing_unique by blast
  finally show ?thesis .
qed

lemma caps_wrangle_preferred:
  assumes "set_iteration_order enum" and "t \<in> set terms"
  shows "get_preferred_capitalization lower terms t =
           Some (case dict_get (caps_substitutions lower enum terms) t of Some u \<Rightarrow> u | None \<Rightarrow> t)"
proof -
  from preferred_is_most_frequent[OF assms(2)] obtain u where
    u: "get_preferred_capitalization lower terms t = Some u" by blast
  show ?thesis
    using u assms(2) unique_terms_set[OF assms(1), of terms]
    by (simp add: dict_get_def caps_lookup)
qed

lemma caps_wrangled_fixed:
  assumes "set_iteration_order enum"
    and "x \<in> set (wrangled_terms (caps_substitutions lower enum terms) terms)"
  shows "x \<in> set terms \<and> get_preferred_capitalization lower terms x = Some x"
proof -
  obtain s where s: "s \<in> set terms"
    and x: "x = (case dict_get (caps_substitutions lower enum terms) s of Some u \<Rightarrow> u | None \<Rightarrow> s)"
    using assms(2) by (auto simp: wrangled_terms_map)
  have p: "get_preferred_capitalization lower terms s = Some x"
    using caps_wrangle_preferred[OF assms(1) s] x by simp
  from preferred_is_most_frequent[OF s, of lower] obtain u where
    "get_preferred_capitalization lower terms s = Some u" "most_frequent_casing lower terms s u"
    by blast
  with p have mf: "most_frequent_casing lower terms s x" by simp
  then have lx: "lower x = lower s" and xin: "x \<in> set terms"
    by (simp_all add: most_frequent_casing_def)
  have "get_preferred_capitalization lower terms x = get_preferred_capitalization lower terms s"
    using lx by (rule preferred_same_group)
  then show ?thesis using p xin by simp
qed

section \<open>Claims about the Capitalization Normalizer\<close>

text \<open>
  C2. For every term \<open>t\<close> of the input, the map of the Capitalization Normalizer records
  \<open>t \<mapsto> u\<close> exactly when \<open>u\<close> differs from \<open>t\<close> and is the member of the
  case-insensitive group of \<open>t\<close> with the highest frequency count, a tie at the maximum
  going to the term encountered first in the input; nothing is recorded for \<open>t\<close> exactly
  when \<open>t\<close> is itself that member, in particular when its group has \<open>t\<close> as only
  member and when \<open>t\<close> has the strict maximum count. The recorded value is never
  \<open>None\<close>.
\<close>

theorem caps_substitutions_most_frequent:
  assumes "set_iteration_order enum" and "t \<in> set terms"
  shows "(map_of (caps_substitutions lower enum terms) t = Some (Some u) \<longleftrightarrow>
            u \<noteq> t \<and> most_frequent_casing lower terms t u) \<and>
         (map_of (caps_substitutions lower enum terms) t = None \<longleftrightarrow>
            most_frequent_casing lower terms t t) \<and>
         map_of (caps_substitutions lower enum terms) t \<noteq> Some None \<and>
         ((\<forall>v\<in>set terms. lower v = lower t \<longrightarrow> v = t) \<longrightarrow>
            map_of (caps_substitutions lower enum terms) t = None) \<and>
         ((\<forall>v\<in>set terms. lower v = lower t \<and> v \<noteq> t \<longrightarrow>
              count_list terms v < count_list terms t) \<longrightarrow>
            map_of (caps_substitutions lower enum terms) t = None)"
proof (intro conjI impI)
  show "map_of (caps_substitutions lower enum terms) t = Some (Some u) \<longleftrightarrow>
            u \<noteq> t \<and> most_frequent_casing lower terms t u"
    using assms by (simp add: caps_entry)
  show none: "map_of (caps_substitutions lower enum terms) t = None \<longleftrightarrow>
            most_frequent_casing lower terms t t"
    using assms by (rule caps_no_entry)
  show "map_of (caps_substitutions lower enum terms) t \<noteq> Some None"
    using assms(1) by (simp add: caps_entry)
  {
    assume single: "\<forall>v\<in>set terms. lower v = lower t \<longrightarrow> v = t"
    have "most_frequent_casing lower terms t t"
      unfolding most_frequent_casing_def
    proof (intro conjI ballI impI)
      fix v assume "v \<in> set (takeWhile (\<lambda>x. x \<noteq> t) terms)" "lower v = lower t"
      then have "v \<in> set terms" "v \<noteq> t" "lower v = lower t"
        by (auto dest: set_takeWhileD)
      then show "count_list terms v < count_list terms t" using single by blast
    qed (use assms(2) single in auto)
    then show "map_of (caps_substitutions lower enum terms) t = None" using none by simp
  }
  {
    assume strict: "\<forall>v\<in>set terms. lower v = lower t \<and> v \<noteq> t \<longrightarrow>
              count_list terms v < count_list terms t"
    have "most_frequent_casing lower terms t t"
      unfolding most_frequent_casing_def
    proof (intro conjI ballI impI)
      fix v assume "v \<in> set terms" "lower v = lower t"
      then show "count_list terms v \<le> count_list terms t"
        using strict by (cases "v = t") (auto simp: less_imp_le)
    next
      fix v assume "v \<in> set (takeWhile (\<lambda>x. x \<noteq> t) terms)" "lower v = lower t"
      then have "v \<in> set terms" "v \<noteq> t" "lower v = lower t"
        by (auto dest: set_takeWhileD)
      then show "count_list terms v < count_list terms t" using strict by blast
    qed (use assms(2) in auto)
    then show "map_of (caps_substitutions lower enum terms) t = None" using none by simp
  }
qed

theorem caps_substitutions_most_frequent_witness:
  "set_iteration_order forward_order \<and>
   ''Apple'' \<in> set [''Apple'', ''apple'', ''apple'', ''APPLE''] \<and>
   most_frequent_casing ascii_lower [''Apple'', ''apple'', ''apple'', ''APPLE''] ''Apple'' ''apple'' \<and>
   map_of (caps_substitutions ascii_lower forward_order [''Apple'', ''apple'', ''apple'', ''APPLE''])
      ''Apple'' = Some (Some ''apple'')"
proof -
  have mf: "most_frequent_casing ascii_lower [''Apple'', ''apple'', ''apple'', ''APPLE'']
              ''Apple'' ''apple''"
    by (simp add: most_frequent_casing_def ascii_lower_def lower_char_def)
  have t: "''Apple'' \<in> set [''Apple'', ''apple'', ''apple'', ''APPLE'']" by simp
  show ?thesis
    using caps_substitutions_most_frequent[OF forward_order_ok t,
            where lower = ascii_lower and u = "''apple''"] mf forward_order_ok
    by simp
qed

text \<open>
  C10. Frequency dominance of the Capitalization Normalizer: for every recorded
  substitution \<open>t \<mapsto> u\<close>, the term \<open>u\<close> occurs in the input at least as often as
  \<open>t\<close>.
\<close>

theorem caps_frequency_dominance:
  assumes "map_of (caps_substitutions lower enum terms) t = Some (Some u)"
  shows "count_list terms t \<le> count_list terms u \<and>
         counter_get (counter terms) t \<le> counter_get (counter terms) u"
proof -
  have p: "get_preferred_capitalization lower terms t = Some u"
    using assms by (auto simp: caps_lookup split: if_splits)
  have "count_list terms t \<le> count_list terms u"
  proof (cases "t \<in> set terms")
    case True
    from preferred_is_most_frequent[OF True, of lower] obtain u' where
      "get_preferred_capitalization lower terms t = Some u'" "most_frequent_casing lower terms t u'"
      by blast
    with p have "most_frequent_casing lower terms t u" by simp
    then show ?thesis using True by (simp add: most_frequent_casing_def)
  next
    case False
    then show ?thesis by simp
  qed
  then show ?thesis by (simp add: counter_get_count)
qed

theorem caps_frequency_dominance_witness:
  "map_of (caps_substitutions ascii_lower forward_order [''Apple'', ''apple'', ''apple'', ''APPLE''])
      ''APPLE'' = Some (Some ''apple'') \<and>
   count_list [''Apple'', ''apple'', ''apple'', ''APPLE''] ''APPLE''
     \<le> count_list [''Apple'', ''apple'', ''apple'', ''APPLE''] ''apple''"
proof -
  have r: "map_of (caps_substitutions ascii_lower forward_order
             [''Apple'', ''apple'', ''apple'', ''APPLE'']) ''APPLE'' = Some (Some ''apple'')"
    by code_simp
  show ?thesis using caps_frequency_dominance[OF r] r by blast
qed

text \<open>
  C8. Idempotence of the capitalization pass: a Capitalization Normalizer run on the
  \<open>wrangled_terms\<close> of a Capitalization Normalizer records no substitution, for every
  input sequence.
\<close>

theorem caps_idempotent:
  assumes "set_iteration_order enum"
  shows "caps_substitutions lower enum
           (wrangled_terms (caps_substitutions lower enum terms) terms) = []"
proof -
  let ?w = "wrangled_terms (caps_substitutions lower enum terms) terms"
  have fixed: "get_preferred_capitalization lower ?w x = Some x" if x: "x \<in> set ?w" for x
  proof -
    from preferred_is_most_frequent[OF x, of lower] obtain u where
      u: "get_preferred_capitalization lower ?w x = Some u" and mf: "most_frequent_casing lower ?w x u"
      by blast
    have uw: "u \<in> set ?w" and lu: "lower u = lower x"
      using mf by (simp_all add: most_frequent_casing_def)
    have "Some u = get_preferred_capitalization lower terms u"
      using caps_wrangled_fixed[OF assms uw] by simp
    also have "\<dots> = get_preferred_capitalization lower terms x"
      using lu by (rule preferred_same_group)
    also have "\<dots> = Some x"
      using caps_wrangled_fixed[OF assms x] by simp
    finally have "u = x" by simp
    then show ?thesis using u by simp
  qed
  have "map_of (caps_substitutions lower enum ?w) t = None" for t
    using fixed[of t] unique_terms_set[OF assms, of ?w] by (simp add: caps_lookup)
  then have "map_of (caps_substitutions lower enum ?w) = Map.empty" by (intro ext)
  then show ?thesis by (simp only: map_of_eq_empty_iff)
qed

theorem caps_idempotent_witness:
  "set_iteration_order backward_order \<and>
   wrangled_terms (caps_substitutions ascii_lower backward_order
       [''Apple'', ''apple'', ''apple'', ''APPLE'']) [''Apple'', ''apple'', ''apple'', ''APPLE'']
     = [''apple'', ''apple'', ''apple'', ''apple''] \<and>
   caps_substitutions ascii_lower backward_order [''apple'', ''apple'', ''apple'', ''apple''] = []"
proof -
  have w: "wrangled_terms (caps_substitutions ascii_lower backward_order
       [''Apple'', ''apple'', ''apple'', ''APPLE'']) [''Apple'', ''apple'', ''apple'', ''APPLE'']
     = [''apple'', ''apple'', ''apple'', ''apple'']"
    by code_simp
  show ?thesis
    using caps_idempotent[OF backward_order_ok, of ascii_lower
            "[''Apple'', ''apple'', ''apple'', ''APPLE'']"] w backward_order_ok
    by simp
qed

section \<open>Claims about BaseWrangler\<close>

text \<open>
  C9. For every normalizer (the substitution map is arbitrary here, so the three
  normalizers are covered) and every input sequence, \<open>wrangled_terms\<close> has the length
  of the input, and its \<open>i\<close>-th element is the substitution recorded for the \<open>i\<close>-th
  input term when one is recorded, and the \<open>i\<close>-th input term otherwise.
\<close>

theorem wrangled_terms_length_and_order:
  "length (wrangled_terms substitutions terms) = length terms \<and>
   (\<forall>i<length terms.
      wrangled_terms substitutions terms ! i =
        (case map_of substitutions (terms ! i) of
           Some (Some u) \<Rightarrow> u
         | _ \<Rightarrow> terms ! i))"
  by (auto simp: wrangled_terms_map dict_get_def split: option.splits)

theorem wrangled_terms_length_and_order_witness:
  "length (wrangled_terms (caps_substitutions ascii_lower forward_order
              [''Apple'', ''apple'', ''apple'', ''APPLE''])
            [''Apple'', ''apple'', ''apple'', ''APPLE'']) = 4 \<and>
   wrangled_terms (caps_substitutions ascii_lower forward_order
              [''Apple'', ''apple'', ''apple'', ''APPLE''])
            [''Apple'', ''apple'', ''apple'', ''APPLE''] ! 3 = ''apple''"
proof -
  have r: "map_of (caps_substitutions ascii_lower forward_order
             [''Apple'', ''apple'', ''apple'', ''APPLE'']) ''APPLE'' = Some (Some ''apple'')"
    by code_simp
  have i: "(3::nat) < length [''Apple'', ''apple'', ''apple'', ''APPLE'']" by simp
  show ?thesis
    using wrangled_terms_length_and_order[of
            "caps_substitutions ascii_lower forward_order
               [''Apple'', ''apple'', ''apple'', ''APPLE'']"
            "[''Apple'', ''apple'', ''apple'', ''APPLE'']"] r i
    by (auto simp del: length_Cons)
qed

text \<open>
  C7. For every normalizer, \<open>wrangle term\<close> fails (with the \<open>AssertionError\<close> of the
  \<open>assert\<close>, the input domain error of the specification) exactly when \<open>term\<close> is not
  part of the input sequence; for a term of the input it returns the recorded
  substitution when there is one, and the term itself otherwise.
\<close>

theorem wrangle_input_domain:
  "(wrangle substitutions terms term = Inl AssertionError \<longleftrightarrow> term \<notin> set terms) \<and>
   (term \<in> set terms \<longrightarrow>
      wrangle substitutions terms term =
        Inr (case map_of substitutions term of Some (Some sub) \<Rightarrow> sub | _ \<Rightarrow> term))"
  by (auto simp: wrangle_def dict_get_def split: option.splits)

theorem wrangle_input_domain_witness:
  "wrangle (caps_substitutions ascii_lower forward_order [''Apple'', ''apple'', ''apple''])
      [''Apple'', ''apple'', ''apple''] ''Apple'' = Inr ''apple'' \<and>
   wrangle (caps_substitutions ascii_lower forward_order [''Apple'', ''apple'', ''apple''])
      [''Apple'', ''apple'', ''apple''] ''pear'' = Inl AssertionError"
proof -
  have r: "map_of (caps_substitutions ascii_lower forward_order
             [''Apple'', ''apple'', ''apple'']) ''Apple'' = Some (Some ''apple'')"
    by code_simp
  have i: "''Apple'' \<in> set [''Apple'', ''apple'', ''apple'']"
    and o: "''pear'' \<notin> set [''Apple'', ''apple'', ''apple'']" by simp_all
  show ?thesis
    using wrangle_input_domain[of
            "caps_substitutions ascii_lower forward_order [''Apple'', ''apple'', ''apple'']"
            "[''Apple'', ''apple'', ''apple'']" "''Apple''"]
          wrangle_input_domain[of
            "caps_substitutions ascii_lower forward_order [''Apple'', ''apple'', ''apple'']"
            "[''Apple'', ''apple'', ''apple'']" "''pear''"] r i o
    by simp
qed

section \<open>The ranking of extractBests\<close>

lemma extractBests_length:
  "length (extractBests scorer query choices limit) = min limit (length choices)"
  by (simp add: extractBests_def)

lemma extractBests_subset:
  assumes "p \<in> set (extractBests scorer query choices limit)"
  shows "fst p \<in> set choices \<and> snd p = scorer query (fst p)"
proof -
  have "p \<in> set (sort_key (\<lambda>i. - snd i) (map (\<lambda>choice. (choice, scorer query choice)) choices))"
    using assms unfolding extractBests_def by (rule in_set_takeD)
  then show ?thesis by auto
qed

lemma extractBests_two:
  assumes "distinct choices" and "2 \<le> length choices"
  obtains a b rest where
    "extractBests scorer query choices 2 = [a, b]"
    "a \<noteq> b" "a \<notin> set rest"
    "snd b \<le> snd a" "\<forall>r\<in>set rest. snd r \<le> snd b"
    "\<forall>p\<in>set (a # b # rest). fst p \<in> set choices \<and> snd p = scorer query (fst p)"
    "\<forall>c\<in>set choices. (c, scorer query c) \<in> set (a # b # rest)"
proof -
  let ?ps = "map (\<lambda>choice. (choice, scorer query choice)) choices"
  let ?ys = "sort_key (\<lambda>i. - snd i) ?ps"
  have len: "length ?ys = length choices" by simp
  then obtain a b rest where ys: "?ys = a # b # rest"
    using assms(2) by (cases ?ys; cases "tl ?ys") auto
  have "distinct ?ps" using assms(1) by (simp add: distinct_map inj_on_def)
  then have "distinct ?ys" by (simp only: distinct_sort)
  then have d: "distinct (a # b # rest)" by (simp only: ys)
  have "sorted (map (\<lambda>i. - snd i) ?ys)" by (rule sorted_sort_key)
  then have s: "sorted (map (\<lambda>i. - snd i) (a # b # rest))" by (simp only: ys)
  have "set ?ys = set ?ps" by (rule set_sort)
  then have st: "set (a # b # rest) = set ?ps" by (simp only: ys)
  have 1: "extractBests scorer query choices 2 = [a, b]"
    unfolding extractBests_def ys by (simp add: numeral_2_eq_2)
  have 2: "a \<noteq> b" and 3: "a \<notin> set rest" using d by auto
  have 4: "snd b \<le> snd a" and 5: "\<forall>r\<in>set rest. snd r \<le> snd b" using s by auto
  have 6: "\<forall>p\<in>set (a # b # rest). fst p \<in> set choices \<and> snd p = scorer query (fst p)"
    unfolding st by auto
  have 7: "\<forall>c\<in>set choices. (c, scorer query c) \<in> set (a # b # rest)"
    unfolding st by auto
  show thesis by (rule that[OF 1 2 3 4 5 6 7])
qed

lemma extractBests_strict_top:
  assumes "distinct choices" and "t \<in> set choices" and "w \<in> set choices" and "w \<noteq> t"
    and top: "\<forall>v\<in>set choices. v \<noteq> t \<longrightarrow> scorer t v < scorer t t"
  shows "\<exists>u. extractBests scorer t choices 2 = [(t, scorer t t), (u, scorer t u)] \<and>
             u \<in> set choices \<and> u \<noteq> t \<and>
             (\<forall>v\<in>set choices. v \<noteq> t \<longrightarrow> scorer t v \<le> scorer t u)"
proof -
  have "card {t, w} \<le> card (set choices)"
    using assms(2,3) by (intro card_mono) auto
  then have len: "2 \<le> length choices"
    using assms(1,4) by (simp add: distinct_card)
  from extractBests_two[OF assms(1) len, of scorer t] obtain a b rest where
    eb: "extractBests scorer t choices 2 = [a, b]" and ab: "a \<noteq> b" and ar: "a \<notin> set rest"
    and ba: "snd b \<le> snd a" and rb: "\<forall>r\<in>set rest. snd r \<le> snd b"
    and form: "\<forall>p\<in>set (a # b # rest). fst p \<in> set choices \<and> snd p = scorer t (fst p)"
    and mem: "\<forall>c\<in>set choices. (c, scorer t c) \<in> set (a # b # rest)"
    by blast
  have fa: "fst a \<in> set choices" "snd a = scorer t (fst a)" using form by simp_all
  have fb: "fst b \<in> set choices" "snd b = scorer t (fst b)" using form by simp_all
  have below: "snd p \<le> snd a" if "p \<in> set (b # rest)" for p
    using that ba rb by force
  have a: "fst a = t"
  proof (rule ccontr)
    assume na: "fst a \<noteq> t"
    then have lt: "snd a < scorer t t" using fa top by simp
    have "(t, scorer t t) \<in> set (a # b # rest)" using mem assms(2) by blast
    moreover have "fst (t, scorer t t) \<noteq> fst a" using na by simp
    then have "(t, scorer t t) \<noteq> a" by blast
    ultimately have "(t, scorer t t) \<in> set (b # rest)" by simp
    then have "scorer t t \<le> snd a" using below by fastforce
    then show False using lt by simp
  qed
  have bt: "fst b \<noteq> t"
  proof
    assume "fst b = t"
    then have "a = b" using a fa(2) fb(2) by (simp add: prod_eq_iff)
    then show False using ab by simp
  qed
  have best: "scorer t v \<le> scorer t (fst b)" if v: "v \<in> set choices" "v \<noteq> t" for v
  proof -
    have "(v, scorer t v) \<in> set (a # b # rest)" using mem v(1) by blast
    moreover have "fst (v, scorer t v) \<noteq> fst a" using a v(2) by simp
    then have "(v, scorer t v) \<noteq> a" by blast
    ultimately have "(v, scorer t v) \<in> set (b # rest)" by simp
    then have "(v, scorer t v) = b \<or> (v, scorer t v) \<in> set rest" by simp
    then have "scorer t v \<le> snd b" using rb by force
    then show ?thesis using fb by simp
  qed
  have "a = (t, scorer t t)" using a fa(2) by (simp add: prod_eq_iff)
  moreover have "b = (fst b, scorer t (fst b))" using fb(2) by (simp add: prod_eq_iff)
  ultimately have "extractBests scorer t choices 2 = [(t, scorer t t), (fst b, scorer t (fst b))]"
    using eb by simp
  then show ?thesis using fb(1) bt best by blast
qed

lemma text_entry_values:
  assumes "set_iteration_order enum"
    and "map_of (text_substitutions scorer enum terms threshold) t = Some v"
  shows "t \<in> set terms \<and> (\<exists>u. v = Some u \<and> u \<in> set terms \<and>
           count_list terms t \<le> count_list terms u)"
proof -
  let ?ct = "extractBests scorer t (unique_terms enum terms) 2"
  from assms(2) have t: "t \<in> set (unique_terms enum terms)" and len: "length ?ct > 1"
    and cnt: "counter_get (counter terms) (fst (last ?ct)) \<ge> counter_get (counter terms) t"
    and v: "v = Some (fst (last ?ct))"
    by (auto simp: text_lookup Let_def split: if_splits)
  have "?ct \<noteq> []" using len by auto
  then have "last ?ct \<in> set ?ct" by (rule last_in_set)
  then have "fst (last ?ct) \<in> set (unique_terms enum terms)"
    using extractBests_subset by blast
  then show ?thesis
    using t v cnt unique_terms_set[OF assms(1), of terms] by (simp add: counter_get_count)
qed

section \<open>Claims about the Fuzzy Text Normalizer\<close>

text \<open>
  When every other term of the input scores strictly less against \<open>t\<close> than \<open>t\<close>
  itself does, \<open>t\<close> is ranked first, the candidate examined is a best-scoring term
  \<open>u\<close> distinct from \<open>t\<close>, and the entry of \<open>t\<close> is decided by the two tests on
  \<open>u\<close>.
\<close>

lemma text_strict_top_candidate:
  assumes "set_iteration_order enum" and "t \<in> set terms" and "w \<in> set terms" and "w \<noteq> t"
    and "\<forall>v\<in>set terms. v \<noteq> t \<longrightarrow> scorer t v < scorer t t"
  shows "\<exists>u. extractBests scorer t (unique_terms enum terms) 2
                = [(t, scorer t t), (u, scorer t u)] \<and>
             u \<in> set terms \<and> u \<noteq> t \<and>
             (\<forall>v\<in>set terms. v \<noteq> t \<longrightarrow> scorer t v \<le> scorer t u) \<and>
             map_of (text_substitutions scorer enum terms threshold) t =
               (if scorer t u > threshold \<and> count_list terms t \<le> count_list terms u
                then Some (Some u) else None)"
proof -
  have s: "set (unique_terms enum terms) = set terms"
    and d: "distinct (unique_terms enum terms)"
    using assms(1) by (simp_all add: unique_terms_set unique_terms_distinct)
  have t: "t \<in> set (unique_terms enum terms)" using assms(2) s by simp
  have w: "w \<in> set (unique_terms enum terms)" using assms(3) s by simp
  have top: "\<forall>v\<in>set (unique_terms enum terms). v \<noteq> t \<longrightarrow> scorer t v < scorer t t"
    using assms(5) s by simp
  from extractBests_strict_top[where scorer = scorer, OF d t w assms(4) top]
  obtain u where eb: "extractBests scorer t (unique_terms enum terms) 2
                        = [(t, scorer t t), (u, scorer t u)]"
    and u: "u \<in> set terms" "u \<noteq> t"
    and best: "\<forall>v\<in>set terms. v \<noteq> t \<longrightarrow> scorer t v \<le> scorer t u"
    unfolding s by blast
  have "map_of (text_substitutions scorer enum terms threshold) t =
               (if scorer t u > threshold \<and> count_list terms t \<le> count_list terms u
                then Some (Some u) else None)"
    using t eb by (simp add: text_lookup counter_get_count)
  then show ?thesis using eb u best by blast
qed

lemma text_single_term_no_entry:
  assumes "set_iteration_order enum" and "\<forall>w\<in>set terms. w = t"
  shows "map_of (text_substitutions scorer enum terms threshold) t = None"
proof -
  have s: "set (unique_terms enum terms) = set terms"
    and d: "distinct (unique_terms enum terms)"
    using assms(1) by (simp_all add: unique_terms_set unique_terms_distinct)
  have "set (unique_terms enum terms) \<subseteq> {t}" using assms(2) s by auto
  then have "card (set (unique_terms enum terms)) \<le> card {t}"
    by (intro card_mono) auto
  then have "length (unique_terms enum terms) \<le> 1" using d by (simp add: distinct_card)
  then have "length (extractBests scorer t (unique_terms enum terms) 2) \<le> 1"
    by (simp add: extractBests_length)
  then show ?thesis by (simp add: text_lookup Let_def)
qed

text \<open>
  C3 fails on the code: on the input \<open>[Apple, apple, apple]\<close> with a scorer that
  ignores case, both terms score 100 against either of them. For the term the set
  iterates second, the top-ranked candidate is the other term and the candidate examined
  is the term itself, not the best-scoring term distinct from it. When \<open>Apple\<close> is
  iterated first, \<open>apple\<close> is examined against itself; when \<open>apple\<close> is iterated
  first, \<open>Apple\<close> is examined against itself and is never replaced by \<open>apple\<close>.
\<close>

theorem text_examines_term_itself:
  "extractBests sample_scorer ''apple''
      (unique_terms forward_order [''Apple'', ''apple'', ''apple'']) 2
     = [(''Apple'', 100), (''apple'', 100)] \<and>
   text_substitutions sample_scorer forward_order [''Apple'', ''apple'', ''apple''] 94
     = [(''Apple'', Some ''apple''), (''apple'', Some ''apple'')] \<and>
   extractBests sample_scorer ''Apple''
      (unique_terms backward_order [''Apple'', ''apple'', ''apple'']) 2
     = [(''apple'', 100), (''Apple'', 100)] \<and>
   text_substitutions sample_scorer backward_order [''Apple'', ''apple'', ''apple''] 94
     = [(''Apple'', Some ''Apple'')]"
  by code_simp

text \<open>
  C4. For a term \<open>t\<close> of the input whose ranking has a second entry \<open>(u, score)\<close>, the
  selected candidate, the Fuzzy Text Normalizer records \<open>t \<mapsto> u\<close> if \<open>score\<close>
  strictly exceeds the threshold and \<open>u\<close> occurs at least as often as \<open>t\<close>, and records
  nothing for \<open>t\<close> otherwise; and for every recorded pair \<open>t' \<mapsto> u'\<close> the term \<open>u'\<close>
  occurs at least as often as \<open>t'\<close>.
\<close>

theorem text_substitutions_threshold_and_frequency:
  assumes "set_iteration_order enum" and "t \<in> set terms"
    and "extractBests scorer t (unique_terms enum terms) 2 = [best, (u, score)]"
  shows "map_of (text_substitutions scorer enum terms threshold) t =
           (if score > threshold \<and> count_list terms t \<le> count_list terms u
            then Some (Some u) else None) \<and>
         (\<forall>t' u'. map_of (text_substitutions scorer enum terms threshold) t' = Some (Some u')
                    \<longrightarrow> count_list terms t' \<le> count_list terms u')"
proof
  have t: "t \<in> set (unique_terms enum terms)"
    using assms(1,2) by (simp add: unique_terms_set)
  show "map_of (text_substitutions scorer enum terms threshold) t =
           (if score > threshold \<and> count_list terms t \<le> count_list terms u
            then Some (Some u) else None)"
    using t assms(3) by (simp add: text_lookup counter_get_count)
  show "\<forall>t' u'. map_of (text_substitutions scorer enum terms threshold) t' = Some (Some u')
                    \<longrightarrow> count_list terms t' \<le> count_list terms u'"
    using text_entry_values[OF assms(1)] by blast
qed

theorem text_substitutions_threshold_and_frequency_witness:
  "set_iteration_order forward_order \<and>
   extractBests sample_scorer ''programmming''
      (unique_terms forward_order [''programming'', ''programming'', ''programmming'']) 2
     = [(''programmming'', 100), (''programming'', 95)] \<and>
   map_of (text_substitutions sample_scorer forward_order
             [''programming'', ''programming'', ''programmming''] 94) ''programmming''
     = Some (Some ''programming'')"
proof -
  let ?t = "''programmming''" and ?ts = "[''programming'', ''programming'', ''programmming'']"
  have eb: "extractBests sample_scorer ?t (unique_terms forward_order ?ts) 2
              = [(?t, 100), (''programming'', 95)]"
    by code_simp
  have t: "?t \<in> set ?ts" by simp
  show ?thesis
    using text_substitutions_threshold_and_frequency[OF forward_order_ok t eb, of 94]
      eb forward_order_ok
    by simp
qed

text \<open>
  C5 fails for the Fuzzy Text Normalizer: on the input \<open>[Apple, apple]\<close> with a scorer
  that ignores case, whichever of the two terms the set iterates second is mapped to
  itself.
\<close>

theorem text_substitutions_self_mapping:
  "text_substitutions sample_scorer forward_order [''Apple'', ''apple''] 94
     = [(''Apple'', Some ''apple''), (''apple'', Some ''apple'')] \<and>
   text_substitutions sample_scorer backward_order [''Apple'', ''apple''] 94
     = [(''apple'', Some ''Apple''), (''Apple'', Some ''Apple'')]"
  by code_simp

section \<open>The two loops of the Wrangler\<close>

lemma chain_loop_lookup:
  assumes "distinct (map fst ps)"
  shows "map_of (fold (\<lambda>(term, caps_sub) substitutions.
                         (case h caps_sub of
                            Some text_sub \<Rightarrow> AList.update term (Some text_sub) substitutions
                          | None \<Rightarrow> substitutions)) ps acc) t
         = (case map_of ps t of
              Some caps_sub \<Rightarrow> (case h caps_sub of
                                  Some text_sub \<Rightarrow> Some (Some text_sub)
                                | None \<Rightarrow> map_of acc t)
            | None \<Rightarrow> map_of acc t)"
  using assms
proof (induction ps arbitrary: acc)
  case Nil
  then show ?case by simp
next
  case (Cons p ps)
  obtain k v where p: "p = (k, v)" by (cases p)
  have d: "distinct (map fst ps)" and k: "map_of ps k = None"
    using Cons.prems p by (auto simp: map_of_eq_None_iff)
  show ?case
    using k by (cases "h v") (auto simp: p Cons.IH[OF d] update_conv' split: option.splits)
qed

lemma chain_loop_distinct:
  "distinct (map fst acc) \<Longrightarrow>
   distinct (map fst (fold (\<lambda>(term, caps_sub) substitutions.
                         (case h caps_sub of
                            Some text_sub \<Rightarrow> AList.update term (Some text_sub) substitutions
                          | None \<Rightarrow> substitutions)) ps acc))"
proof (induction ps arbitrary: acc)
  case Nil
  then show ?case by simp
next
  case (Cons p ps)
  obtain k v where p: "p = (k, v)" by (cases p)
  show ?case
    by (cases "h v") (auto simp: p Cons distinct_update)
qed

lemma copy_loop_lookup:
  assumes "distinct (map fst ps)"
  shows "map_of (fold (\<lambda>(term, text_sub) substitutions.
                         AList.update term text_sub substitutions) ps acc) t
         = (case map_of ps t of Some v \<Rightarrow> Some v | None \<Rightarrow> map_of acc t)"
  using assms
proof (induction ps arbitrary: acc)
  case Nil
  then show ?case by simp
next
  case (Cons p ps)
  obtain k v where p: "p = (k, v)" by (cases p)
  have d: "distinct (map fst ps)" and k: "map_of ps k = None"
    using Cons.prems p by (auto simp: map_of_eq_None_iff)
  show ?case
    using k by (auto simp: p Cons.IH[OF d] update_conv' split: option.splits)
qed

lemma copy_loop_distinct:
  "distinct (map fst acc) \<Longrightarrow>
   distinct (map fst (fold (\<lambda>(term, text_sub) substitutions.
                         AList.update term text_sub substitutions) ps acc))"
proof (induction ps arbitrary: acc)
  case Nil
  then show ?case by simp
next
  case (Cons p ps)
  obtain k v where p: "p = (k, v)" by (cases p)
  show ?case by (simp add: p Cons distinct_update)
qed

lemma wrangler_lookup:
  "map_of (wrangler_substitutions lower scorer enum terms) t =
     (let caps_subs = caps_substitutions lower enum terms;
          text_subs = text_substitutions scorer enum (wrangled_terms caps_subs terms) 94 in
      case map_of text_subs t of
        Some v \<Rightarrow> Some v
      | None \<Rightarrow>
         (case map_of caps_subs t of
            Some caps_sub \<Rightarrow>
              (case (case caps_sub of None \<Rightarrow> None | Some c \<Rightarrow> dict_get text_subs c) of
                 Some text_sub \<Rightarrow> Some (Some text_sub)
               | None \<Rightarrow> Some caps_sub)
          | None \<Rightarrow> None))"
  unfolding wrangler_substitutions_def Let_def
  by (simp add: copy_loop_lookup[OF text_distinct] chain_loop_lookup[OF caps_distinct]
           split: option.splits)

lemma wrangler_distinct: "distinct (map fst (wrangler_substitutions lower scorer enum terms))"
  unfolding wrangler_substitutions_def Let_def
  by (intro copy_loop_distinct chain_loop_distinct caps_distinct)

lemma caps_fixed_no_entry:
  "get_preferred_capitalization lower terms x = Some x \<Longrightarrow>
   map_of (caps_substitutions lower enum terms) x = None"
  by (simp add: caps_lookup)

lemma caps_value_fixed:
  assumes "set_iteration_order enum"
    and "map_of (caps_substitutions lower enum terms) t = Some (Some u)"
  shows "u \<in> set terms \<and> get_preferred_capitalization lower terms u = Some u"
proof -
  have mf: "most_frequent_casing lower terms t u"
    using assms by (simp add: caps_entry)
  then have lu: "lower u = lower t" and u: "u \<in> set terms"
    by (simp_all add: most_frequent_casing_def)
  have "get_preferred_capitalization lower terms u = get_preferred_capitalization lower terms t"
    using lu by (rule preferred_same_group)
  also have "\<dots> = Some u"
    using assms(2) by (auto simp: caps_lookup split: if_splits)
  finally show ?thesis using u by simp
qed

lemma wrangler_text_entry:
  assumes "set_iteration_order enum"
    and "map_of (text_substitutions scorer enum
                   (wrangled_terms (caps_substitutions lower enum terms) terms) threshold) t = Some v"
  shows "t \<in> set terms \<and> get_preferred_capitalization lower terms t = Some t \<and>
         (\<exists>u. v = Some u \<and> u \<in> set terms \<and> get_preferred_capitalization lower terms u = Some u)"
proof -
  let ?wr = "wrangled_terms (caps_substitutions lower enum terms) terms"
  from text_entry_values[OF assms] obtain u where
    t: "t \<in> set ?wr" and v: "v = Some u" and u: "u \<in> set ?wr" by blast
  show ?thesis
    using caps_wrangled_fixed[OF assms(1) t] caps_wrangled_fixed[OF assms(1) u] v by simp
qed

lemma wrangler_get:
  assumes "set_iteration_order enum"
  shows "dict_get (wrangler_substitutions lower scorer enum terms) t =
           (case dict_get (caps_substitutions lower enum terms) t of
              Some u \<Rightarrow>
                Some (case dict_get (text_substitutions scorer enum
                         (wrangled_terms (caps_substitutions lower enum terms) terms) 94) u of
                        Some w \<Rightarrow> w
                      | None \<Rightarrow> u)
            | None \<Rightarrow>
                dict_get (text_substitutions scorer enum
                   (wrangled_terms (caps_substitutions lower enum terms) terms) 94) t)"
proof (cases "map_of (caps_substitutions lower enum terms) t")
  case None
  then show ?thesis
    by (simp add: dict_get_def wrangler_lookup Let_def split: option.splits)
next
  case (Some cs)
  then obtain u where cs: "cs = Some u" using assms by (auto simp: caps_entry)
  have "get_preferred_capitalization lower terms t \<noteq> Some t"
    using Some by (auto simp: caps_lookup split: if_splits)
  then have "map_of (text_substitutions scorer enum
                   (wrangled_terms (caps_substitutions lower enum terms) terms) 94) t = None"
    using wrangler_text_entry[OF assms, of scorer lower terms 94 t] by fastforce
  then show ?thesis
    using Some cs
    by (simp add: dict_get_def wrangler_lookup Let_def split: option.splits)
qed

lemma wrangler_entry_values:
  assumes "set_iteration_order enum"
    and "map_of (wrangler_substitutions lower scorer enum terms) t = Some v"
  shows "t \<in> set terms \<and>
         (\<exists>u. v = Some u \<and> u \<in> set terms \<and> get_preferred_capitalization lower terms u = Some u)"
proof -
  let ?caps = "caps_substitutions lower enum terms"
  let ?text = "text_substitutions scorer enum (wrangled_terms ?caps terms) 94"
  show ?thesis
  proof (cases "map_of ?text t")
    case (Some v')
    then have "v' = v" using assms(2) by (simp add: wrangler_lookup Let_def)
    then show ?thesis using wrangler_text_entry[OF assms(1) Some] by simp
  next
    case None
    then obtain cs where cs: "map_of ?caps t = Some cs"
      using assms(2) by (auto simp: wrangler_lookup Let_def split: option.splits)
    then obtain u where u: "cs = Some u" and t: "t \<in> set terms"
      using assms(1) by (auto simp: caps_entry)
    show ?thesis
    proof (cases "dict_get ?text u")
      case None': None
      then have "v = Some u"
        using assms(2) None cs u by (simp add: wrangler_lookup Let_def)
      then show ?thesis using t caps_value_fixed[OF assms(1)] cs u by blast
    next
      case (Some w)
      then have v: "v = Some w"
        using assms(2) None cs u by (simp add: wrangler_lookup Let_def)
      have "map_of ?text u = Some (Some w)"
        using Some by (auto simp: dict_get_def split: option.splits)
      then show ?thesis using wrangler_text_entry[OF assms(1)] v t by blast
    qed
  qed
qed

section \<open>Claims about the Composite Normalizer and about all normalizers\<close>

text \<open>
  C1, as amended. For every term \<open>t\<close> of the raw input, the lookup of \<open>t\<close> in the
  Composite Normalizer is the lookup in the Fuzzy Text Normalizer (computed over the
  capitalization-normalized sequence) of the result of the lookup of \<open>t\<close> in the
  Capitalization Normalizer; and no value of the composite map is a key of the
  Capitalization Normalizer's map.
\<close>

theorem wrangler_single_lookup:
  assumes "set_iteration_order enum"
  shows "(t \<in> set terms \<longrightarrow>
            (\<exists>u. wrangle (caps_substitutions lower enum terms) terms t = Inr u \<and>
                 wrangle (wrangler_substitutions lower scorer enum terms) terms t =
                   wrangle (text_substitutions scorer enum
                              (wrangled_terms (caps_substitutions lower enum terms) terms) 94)
                           (wrangled_terms (caps_substitutions lower enum terms) terms) u)) \<and>
         (map_of (wrangler_substitutions lower scorer enum terms) t = Some (Some v) \<longrightarrow>
            map_of (caps_substitutions lower enum terms) v = None)"
proof (intro conjI impI)
  let ?caps = "caps_substitutions lower enum terms"
  let ?wr = "wrangled_terms ?caps terms"
  let ?text = "text_substitutions scorer enum ?wr 94"
  {
    assume t: "t \<in> set terms"
    define u where "u = (case dict_get ?caps t of None \<Rightarrow> t | Some sub \<Rightarrow> sub)"
    have c: "wrangle ?caps terms t = Inr u" using t by (simp add: wrangle_def u_def)
    have "u \<in> set ?wr"
      using t by (auto simp: wrangled_terms_map u_def image_iff split: option.splits
                       intro!: bexI[of _ t])
    then have "wrangle ?text ?wr u = Inr (case dict_get ?text u of None \<Rightarrow> u | Some w \<Rightarrow> w)"
      by (simp add: wrangle_def)
    moreover have "wrangle (wrangler_substitutions lower scorer enum terms) terms t
                     = Inr (case dict_get ?text u of None \<Rightarrow> u | Some w \<Rightarrow> w)"
      using t by (simp add: wrangle_def wrangler_get[OF assms] u_def split: option.splits)
    ultimately show "\<exists>u. wrangle ?caps terms t = Inr u \<and>
        wrangle (wrangler_substitutions lower scorer enum terms) terms t = wrangle ?text ?wr u"
      using c by simp
  }
  {
    assume "map_of (wrangler_substitutions lower scorer enum terms) t = Some (Some v)"
    then have "get_preferred_capitalization lower terms v = Some v"
      using wrangler_entry_values[OF assms] by blast
    then show "map_of ?caps v = None" by (rule caps_fixed_no_entry)
  }
qed

theorem wrangler_single_lookup_witness:
  "set_iteration_order forward_order \<and>
   wrangle (caps_substitutions ascii_lower forward_order
              [''programmming'', ''Programmming'', ''programming'', ''programming'', ''programming''])
      [''programmming'', ''Programmming'', ''programming'', ''programming'', ''programming'']
      ''Programmming'' = Inr ''programmming'' \<and>
   wrangle (wrangler_substitutions ascii_lower sample_scorer forward_order
              [''programmming'', ''Programmming'', ''programming'', ''programming'', ''programming''])
      [''programmming'', ''Programmming'', ''programming'', ''programming'', ''programming'']
      ''Programmming'' = Inr ''programming''"
proof -
  let ?ts = "[''programmming'', ''Programmming'', ''programming'', ''programming'', ''programming'']"
  let ?caps = "caps_substitutions ascii_lower forward_order ?ts"
  have c: "wrangle ?caps ?ts ''Programmming'' = Inr ''programmming''" by code_simp
  have x: "wrangle (text_substitutions sample_scorer forward_order (wrangled_terms ?caps ?ts) 94)
             (wrangled_terms ?caps ?ts) ''programmming'' = Inr ''programming''"
    by code_simp
  have t: "''Programmming'' \<in> set ?ts" by simp
  from wrangler_single_lookup[OF forward_order_ok, of "''Programmming''" ?ts ascii_lower
         sample_scorer] t
  obtain u where "wrangle ?caps ?ts ''Programmming'' = Inr u"
    and "wrangle (wrangler_substitutions ascii_lower sample_scorer forward_order ?ts) ?ts
           ''Programmming''
         = wrangle (text_substitutions sample_scorer forward_order (wrangled_terms ?caps ?ts) 94)
             (wrangled_terms ?caps ?ts) u"
    by blast
  then show ?thesis using c x forward_order_ok by simp
qed

text \<open>
  C1, as stated, fails: on the input \<open>[programming, programmming]\<close> the composite map
  sends each of the two terms to the other, for both iteration orders, so the value
  \<open>programmming\<close> of the exposed map is itself a key of it.
\<close>

theorem wrangler_value_is_key_counterexample:
  "wrangler_substitutions ascii_lower sample_scorer forward_order
      [''programming'', ''programmming'']
     = [(''programming'', Some ''programmming''), (''programmming'', Some ''programming'')] \<and>
   wrangler_substitutions ascii_lower sample_scorer backward_order
      [''programming'', ''programmming'']
     = [(''programmming'', Some ''programming''), (''programming'', Some ''programmming'')]"
  by code_simp

text \<open>
  C6. Domain closure: for each of the three normalizers, every key of its substitution
  map is a term of the input sequence given to that normalizer, and every value is a
  term of that input sequence.
\<close>

theorem substitutions_domain_closure:
  assumes "set_iteration_order enum"
  shows "((t, v) \<in> set (caps_substitutions lower enum terms) \<longrightarrow>
            t \<in> set terms \<and> (\<exists>u. v = Some u \<and> u \<in> set terms)) \<and>
         ((t, v) \<in> set (text_substitutions scorer enum terms threshold) \<longrightarrow>
            t \<in> set terms \<and> (\<exists>u. v = Some u \<and> u \<in> set terms)) \<and>
         ((t, v) \<in> set (wrangler_substitutions lower scorer enum terms) \<longrightarrow>
            t \<in> set terms \<and> (\<exists>u. v = Some u \<and> u \<in> set terms))"
proof -
  have c: "t \<in> set terms \<and> (\<exists>u. v = Some u \<and> u \<in> set terms)"
    if "(t, v) \<in> set (caps_substitutions lower enum terms)"
  proof -
    have "map_of (caps_substitutions lower enum terms) t = Some v"
      using that by (simp add: caps_distinct)
    then show ?thesis
      using assms by (auto simp: caps_entry most_frequent_casing_def)
  qed
  have x: "t \<in> set terms \<and> (\<exists>u. v = Some u \<and> u \<in> set terms)"
    if "(t, v) \<in> set (text_substitutions scorer enum terms threshold)"
  proof -
    have "map_of (text_substitutions scorer enum terms threshold) t = Some v"
      using that by (simp add: text_distinct)
    then show ?thesis using text_entry_values[OF assms] by blast
  qed
  have w: "t \<in> set terms \<and> (\<exists>u. v = Some u \<and> u \<in> set terms)"
    if "(t, v) \<in> set (wrangler_substitutions lower scorer enum terms)"
  proof -
    have "map_of (wrangler_substitutions lower scorer enum terms) t = Some v"
      using that by (simp add: wrangler_distinct)
    then show ?thesis using wrangler_entry_values[OF assms] by blast
  qed
  show ?thesis using c x w by blast
qed

theorem substitutions_domain_closure_witness:
  "set_iteration_order forward_order \<and>
   (''Programmming'', Some ''programming'')
      \<in> set (wrangler_substitutions ascii_lower sample_scorer forward_order
               [''programmming'', ''Programmming'', ''programming'', ''programming'',
                ''programming'']) \<and>
   ''Programmming'' \<in> set [''programmming'', ''Programmming'', ''programming'', ''programming'',
                ''programming''] \<and>
   ''programming'' \<in> set [''programmming'', ''Programmming'', ''programming'', ''programming'',
                ''programming'']"
proof -
  let ?ts = "[''programmming'', ''Programmming'', ''programming'', ''programming'', ''programming'']"
  have m: "(''Programmming'', Some ''programming'')
             \<in> set (wrangler_substitutions ascii_lower sample_scorer forward_order ?ts)"
    by code_simp
  from substitutions_domain_closure[OF forward_order_ok, of "''Programmming''"
         "Some ''programming''" ascii_lower ?ts sample_scorer 94] m
  have "''Programmming'' \<in> set ?ts \<and> (\<exists>u. Some ''programming'' = Some u \<and> u \<in> set ?ts)"
    by blast
  then show ?thesis using m forward_order_ok by blast
qed

end
